theory Spec2Isabelle
  imports Main "HOL-Library.Sublist"
begin

section \<open>Texts\<close>

text \<open>
  A Python \<open>str\<close> is a sequence of Unicode code points. A text is modelled as the list of
  its code points; \<open>str\<close> turns a literal into such a list.
\<close>

type_synonym codepoint = nat
type_synonym pystr = "codepoint list"

definition str :: "string \<Rightarrow> pystr" where
  "str cs = map of_char cs"

section \<open>The regular expressions of module \<open>re\<close> that the script uses\<close>

text \<open>
  \<open>\s\<close> in a \<open>str\<close> pattern is the Unicode white space class: the code points
  U+0009..U+000D, U+001C..U+0020, U+0085, U+00A0, U+1680, U+2000..U+200A, U+2028, U+2029,
  U+202F, U+205F and U+3000.
\<close>

definition is_space :: "codepoint \<Rightarrow> bool" where
  "is_space c \<longleftrightarrow>
     (9 \<le> c \<and> c \<le> 13) \<or> (28 \<le> c \<and> c \<le> 32) \<or> c = 133 \<or> c = 160 \<or> c = 5760 \<or>
     (8192 \<le> c \<and> c \<le> 8202) \<or> c = 8232 \<or> c = 8233 \<or> c = 8239 \<or> c = 8287 \<or> c = 12288"

text \<open>
  A one-character matcher: an (escaped) literal character, \<open>.\<close> (without \<open>re.DOTALL\<close>: any
  character but the line feed) and \<open>\s\<close>.
\<close>

datatype charset = Lit codepoint | AnyChar | Space

fun in_charset :: "charset \<Rightarrow> codepoint \<Rightarrow> bool" where
  "in_charset (Lit a) c = (c = a)"
| "in_charset AnyChar c = (c \<noteq> 10)"
| "in_charset Space c = is_space c"

text \<open>
  The patterns of the script use: single characters, concatenation, the greedy optional
  non-capturing group \<open>(?:r)?\<close>, the greedy repetitions \<open>+\<close> and \<open>*\<close> of a one-character
  matcher, and a numbered capturing group.
\<close>

datatype regex =
    Empty
  | Atom charset
  | Seq regex regex
  | Opt regex
  | Plus charset
  | Star charset
  | Group nat regex

definition seqs :: "regex list \<Rightarrow> regex" where
  "seqs rs = foldr Seq rs Empty"

definition lits :: "pystr \<Rightarrow> regex" where
  "lits s = seqs (map (\<lambda>c. Atom (Lit c)) s)"

text \<open>
  The matcher of \<open>re\<close> backtracks: at every choice it takes the greedy alternative first
  and comes back to the next one when the rest of the pattern fails. Its search order is
  modelled by the list of all the ways a pattern can match a prefix of the text, in the
  order in which the engine tries them; a way is the captured groups together with the text
  that is left. The engine reports the first way that lets the rest of the pattern succeed.
\<close>

type_synonym groups = "(nat \<times> pystr) list"

text \<open>What is left after a greedy repetition of a one-character matcher: longest run first.\<close>

fun repeat_one :: "charset \<Rightarrow> pystr \<Rightarrow> pystr list" where
  "repeat_one cs [] = [[]]"
| "repeat_one cs (c # s) = (if in_charset cs c then repeat_one cs s @ [c # s] else [c # s])"

fun matches :: "regex \<Rightarrow> groups \<times> pystr \<Rightarrow> (groups \<times> pystr) list" where
  "matches Empty st = [st]"
| "matches (Atom cs) (g, []) = []"
| "matches (Atom cs) (g, c # s) = (if in_charset cs c then [(g, s)] else [])"
| "matches (Seq a b) st = concat (map (matches b) (matches a st))"
| "matches (Opt a) st = matches a st @ [st]"
| "matches (Plus cs) (g, []) = []"
| "matches (Plus cs) (g, c # s) = (if in_charset cs c then map (Pair g) (repeat_one cs s) else [])"
| "matches (Star cs) (g, s) = map (Pair g) (repeat_one cs s)"
| "matches (Group n a) (g, s) =
     map (\<lambda>(g', s'). ((n, take (length s - length s') s) # g', s')) (matches a (g, s))"

text \<open>
  One attempt at the start of \<open>s\<close>. With \<open>must_advance\<close> (set by \<open>re.sub\<close> after an empty
  match) a way that consumes nothing is refused and the engine backtracks.
\<close>

definition match_at :: "regex \<Rightarrow> bool \<Rightarrow> pystr \<Rightarrow> (groups \<times> pystr) option" where
  "match_at r must_advance s =
     find (\<lambda>(g, s'). \<not> (must_advance \<and> length s' = length s)) (matches r ([], s))"

text \<open>
  The search for the leftmost match: the text skipped before the match, the groups and the
  text after the match. \<open>must_advance\<close> only holds for the first position tried.
\<close>

fun search :: "regex \<Rightarrow> bool \<Rightarrow> pystr \<Rightarrow> (pystr \<times> groups \<times> pystr) option" where
  "search r must_advance [] =
     (case match_at r must_advance [] of
        Some (g, s') \<Rightarrow> Some ([], g, s')
      | None \<Rightarrow> None)"
| "search r must_advance (c # s) =
     (case match_at r must_advance (c # s) of
        Some (g, s') \<Rightarrow> Some ([], g, s')
      | None \<Rightarrow>
          (case search r False s of
             Some (skipped, g, s') \<Rightarrow> Some (c # skipped, g, s')
           | None \<Rightarrow> None))"

text \<open>
  The replacement template, parsed: literal text and group references \<open>\1\<close>. A reference
  to a group that did not take part in the match expands to the empty string.
\<close>

datatype titem = TLit pystr | TGroup nat

type_synonym template = "titem list"

fun expand :: "template \<Rightarrow> groups \<Rightarrow> pystr" where
  "expand [] g = []"
| "expand (TLit s # t) g = s @ expand t g"
| "expand (TGroup n # t) g = (case map_of g n of Some x \<Rightarrow> x | None \<Rightarrow> []) @ expand t g"

text \<open>
  The exceptions of the script: \<open>re.error\<close> for a template that refers to a group the
  pattern does not have (raised when the template is parsed, before any matching), and
  \<open>OSError\<close> for a path that cannot be opened or listed.
\<close>

datatype error = InvalidGroupReference nat | OSError pystr

fun num_groups :: "regex \<Rightarrow> nat" where
  "num_groups (Seq a b) = num_groups a + num_groups b"
| "num_groups (Opt a) = num_groups a"
| "num_groups (Group n a) = Suc (num_groups a)"
| "num_groups r = 0"

fun bad_reference :: "regex \<Rightarrow> template \<Rightarrow> nat option" where
  "bad_reference r [] = None"
| "bad_reference r (TLit s # t) = bad_reference r t"
| "bad_reference r (TGroup n # t) = (if n > num_groups r then Some n else bad_reference r t)"

subsection \<open>Termination of the substitution loop\<close>

lemma find_SomeD: "find P xs = Some x \<Longrightarrow> P x \<and> x \<in> set xs"
  by (induction xs) (auto split: if_splits)

lemma repeat_one_length: "t \<in> set (repeat_one cs s) \<Longrightarrow> length t \<le> length s"
  by (induction s) (auto split: if_splits)

lemma matches_length: "(g', s') \<in> set (matches r (g, s)) \<Longrightarrow> length s' \<le> length s"
proof (induction r arbitrary: g s g' s')
  case (Atom cs)
  then show ?case by (cases s) (auto split: if_splits)
next
  case (Seq a b)
  then obtain g1 s1 where "(g1, s1) \<in> set (matches a (g, s))" "(g', s') \<in> set (matches b (g1, s1))"
    by auto
  with Seq.IH show ?case by (meson le_trans)
next
  case (Plus cs)
  then show ?case by (cases s) (auto split: if_splits dest: repeat_one_length)
next
  case (Star cs)
  then show ?case by (auto dest: repeat_one_length)
qed auto

lemma match_at_length:
  assumes "match_at r adv s = Some (g, s')"
  shows "length s' \<le> length s" and "adv \<Longrightarrow> length s' < length s"
proof -
  from assms have mem: "(g, s') \<in> set (matches r ([], s))"
    and ok: "\<not> (adv \<and> length s' = length s)"
    by (auto simp: match_at_def dest: find_SomeD)
  from mem show "length s' \<le> length s" by (rule matches_length)
  then show "adv \<Longrightarrow> length s' < length s" using ok by simp
qed

lemma search_length:
  "search r adv s = Some (skipped, g, s') \<Longrightarrow>
     length skipped + length s' \<le> length s \<and> (adv \<and> skipped = [] \<longrightarrow> length s' < length s)"
proof (induction s arbitrary: adv skipped)
  case Nil
  then show ?case by (auto split: option.splits dest: match_at_length)
next
  case (Cons c s)
  show ?case
  proof (cases "match_at r adv (c # s)")
    case None
    with Cons.prems obtain sk where "search r False s = Some (sk, g, s')" "skipped = c # sk"
      by (auto split: option.splits)
    with Cons.IH show ?thesis by fastforce
  next
    case (Some m)
    with Cons.prems have "match_at r adv (c # s) = Some (g, s')" "skipped = []"
      by (auto split: prod.splits)
    then show ?thesis using match_at_length[of r adv "c # s" g s'] by auto
  qed
qed

text \<open>
  The loop of \<open>re.sub\<close>: copy the text before the leftmost match, add the expanded
  template, and go on after the match; after an empty match the next one must advance.
  The text after the last match is copied as it is.
\<close>

function sub_loop :: "regex \<Rightarrow> template \<Rightarrow> bool \<Rightarrow> pystr \<Rightarrow> pystr" where
  "sub_loop r tpl must_advance s =
     (case search r must_advance s of
        None \<Rightarrow> s
      | Some (skipped, g, s') \<Rightarrow>
          skipped @ expand tpl g @ sub_loop r tpl (length skipped + length s' = length s) s')"
  by pat_completeness auto
termination
proof (relation "measure (\<lambda>(r, tpl, adv, s). 2 * length s + (if adv then 0 else 1))", goal_cases)
  case 1
  show ?case by simp
next
  case (2 r tpl adv s m skipped gs g s')
  then have "search r adv s = Some (skipped, g, s')" by simp
  from search_length[OF this] show ?case by (cases skipped) (auto split: if_splits)
qed

declare sub_loop.simps [simp del]

definition re_sub :: "regex \<Rightarrow> template \<Rightarrow> pystr \<Rightarrow> error + pystr" where
  "re_sub r tpl s =
     (case bad_reference r tpl of
        Some n \<Rightarrow> Inl (InvalidGroupReference n)
      | None \<Rightarrow> Inr (sub_loop r tpl False s))"

section \<open>The rule chain of \<open>fix_test_file\<close>\<close>

text \<open>
  Pattern 1, \<^verbatim>\<open>(\s+)(?:\/\/ Save and restore working directory\s+)?origDir, _ := os\.Getwd\(\)\s+defer os\.Chdir\(origDir\)\s+(?:\/\/ Given: .*\s+)?tempDir := t\.TempDir\(\)\s+os\.Chdir\(tempDir\)\<close>,
  and its template \<^verbatim>\<open>\1WithIsolatedDirectory(t, func(workingDir string) {\<close>. The flag
  \<open>re.MULTILINE\<close> only changes \<open>^\<close> and \<open>$\<close>, which the pattern does not use.
\<close>

definition pattern1 :: regex where
  "pattern1 = seqs
     [Group 1 (Plus Space),
      Opt (seqs [lits (str ''// Save and restore working directory''), Plus Space]),
      lits (str ''origDir, _ := os.Getwd()''), Plus Space,
      lits (str ''defer os.Chdir(origDir)''), Plus Space,
      Opt (seqs [lits (str ''// Given: ''), Star AnyChar, Plus Space]),
      lits (str ''tempDir := t.TempDir()''), Plus Space,
      lits (str ''os.Chdir(tempDir)'')]"

definition replacement1 :: template where
  "replacement1 = [TGroup 1, TLit (str ''WithIsolatedDirectory(t, func(workingDir string) {'')]"

text \<open>Pattern 2 and the three patterns of "Pattern 3": escaped literal text only.\<close>

definition pattern2 :: regex where
  "pattern2 = lits (str ''getFreshRootCmd()'')"

definition replacement2 :: template where
  "replacement2 = [TLit (str ''GetCommandInDirectory(workingDir)'')]"

definition pattern3a :: regex where
  "pattern3a = lits (str ''assert.FileExists(t, \".ddx.yml\"'')"

definition replacement3a :: template where
  "replacement3a = [TLit (str ''assert.FileExists(t, filepath.Join(workingDir, \".ddx.yml\")'')]"

definition pattern3b :: regex where
  "pattern3b = lits (str ''os.WriteFile(\".ddx.yml\"'')"

definition replacement3b :: template where
  "replacement3b = [TLit (str ''os.WriteFile(filepath.Join(workingDir, \".ddx.yml\")'')]"

definition pattern3c :: regex where
  "pattern3c = lits (str ''os.ReadFile(\".ddx.yml\"'')"

definition replacement3c :: template where
  "replacement3c = [TLit (str ''os.ReadFile(filepath.Join(workingDir, \".ddx.yml\")'')]"

text \<open>An exception raised by one call ends the chain.\<close>

definition and_then :: "error + 'a \<Rightarrow> ('a \<Rightarrow> error + 'b) \<Rightarrow> error + 'b" where
  "and_then x f = (case x of Inl e \<Rightarrow> Inl e | Inr v \<Rightarrow> f v)"

text \<open>
  The three steps of the chain, named as the comments of the script name them. "Pattern 3"
  is three substitutions in a row.
\<close>

definition pattern1_sub :: "pystr \<Rightarrow> error + pystr" where
  "pattern1_sub content = re_sub pattern1 replacement1 content"

definition pattern2_sub :: "pystr \<Rightarrow> error + pystr" where
  "pattern2_sub content = re_sub pattern2 replacement2 content"

definition pattern3_sub :: "pystr \<Rightarrow> error + pystr" where
  "pattern3_sub content =
     and_then (re_sub pattern3a replacement3a content) (\<lambda>c3.
     and_then (re_sub pattern3b replacement3b c3) (\<lambda>c4.
     re_sub pattern3c replacement3c c4))"

text \<open>
  Lines 13 to 35 of \<open>fix_test_file\<close>: the substitutions, each on the result of the one
  before, and the comparison with the original content.
\<close>

definition rewrite :: "pystr \<Rightarrow> error + pystr \<times> bool" where
  "rewrite original_content =
     and_then (pattern1_sub original_content) (\<lambda>c1.
     and_then (pattern2_sub c1) (\<lambda>c2.
     and_then (pattern3_sub c2) (\<lambda>content.
     Inr (content, content \<noteq> original_content))))"

section \<open>Files, the directory and the console\<close>

text \<open>
  The world the script runs in, on a POSIX system:
  \<^item> \<open>files\<close>: the regular files that can be opened for reading and decoded, by path, with
    the text they store;
  \<^item> \<open>dirs\<close>: the directories, by path, with the names \<open>os.listdir\<close> returns, in its order
    (the script lists the directory once, before it writes, so the listing is not updated
    by a write);
  \<^item> \<open>write_failure\<close>: the paths at which writing raises \<open>OSError\<close>: \<open>Some None\<close> when
    \<open>open(p, 'w')\<close> itself fails (no permission, a read-only file system, a missing parent
    directory) and leaves everything as it was, \<open>Some (Some t)\<close> when \<open>open\<close> succeeds and
    the write fails afterwards (a full disk), leaving the text \<open>t\<close> in the file;
  \<^item> \<open>trace\<close>: what the script has done so far, oldest first: every file it read, every
    file it wrote and every line it printed.
\<close>

datatype event = Read pystr | Write pystr | Print pystr

record world =
  files :: "pystr \<rightharpoonup> pystr"
  dirs :: "pystr \<rightharpoonup> pystr list"
  write_failure :: "pystr \<rightharpoonup> pystr option"
  trace :: "event list"














section \<open>Notions used to state the properties\<close>


fun balanced_from :: "nat \<Rightarrow> pystr \<Rightarrow> bool" where
  "balanced_from depth [] = (depth = 0)"
| "balanced_from depth (c # s) =
     (if c = 40 then balanced_from (Suc depth) s
      else if c = 41 then (case depth of 0 \<Rightarrow> False | Suc d \<Rightarrow> balanced_from d s)
      else balanced_from depth s)"

definition balanced :: "pystr \<Rightarrow> bool" where
  "balanced s = balanced_from 0 s"

text \<open>
  The snippets of the boilerplate idiom: the four statements, one on a line, each after the
  same indentation; optionally a first line with the comment
  \<^verbatim>\<open>// Save and restore working directory\<close>, and optionally a comment line
  \<^verbatim>\<open>// Given: \<close> with some text \<open>u\<close>, between the \<open>defer\<close> line and the \<open>tempDir\<close> line (the
  only place where pattern 1 accepts it).
\<close>

definition snippet :: "pystr \<Rightarrow> bool \<Rightarrow> pystr option \<Rightarrow> pystr" where
  "snippet indent lead given =
     (if lead then indent @ str ''// Save and restore working directory'' @ [10] else [])
     @ indent @ str ''origDir, _ := os.Getwd()'' @ [10]
     @ indent @ str ''defer os.Chdir(origDir)'' @ [10]
     @ (case given of None \<Rightarrow> [] | Some u \<Rightarrow> indent @ str ''// Given: '' @ u @ [10])
     @ indent @ str ''tempDir := t.TempDir()'' @ [10]
     @ indent @ str ''os.Chdir(tempDir)''"



text \<open>A path can be written when it is no directory and writing to it does not fail.\<close>

definition can_write :: "world \<Rightarrow> pystr \<Rightarrow> bool" where
  "can_write w p \<longleftrightarrow> p \<notin> dom (dirs w) \<and> write_failure w p = None"









text \<open>
  The texts a pattern stands for, as the documentation of \<open>re\<close> describes the operators,
  with no reference to the order in which the engine tries them.
\<close>

fun lang :: "regex \<Rightarrow> pystr set" where
  "lang Empty = {[]}"
| "lang (Atom cs) = {[c] | c. in_charset cs c}"
| "lang (Seq a b) = {u @ v | u v. u \<in> lang a \<and> v \<in> lang b}"
| "lang (Opt a) = insert [] (lang a)"
| "lang (Plus cs) = {w. w \<noteq> [] \<and> (\<forall>c\<in>set w. in_charset cs c)}"
| "lang (Star cs) = {w. \<forall>c\<in>set w. in_charset cs c}"
| "lang (Group n a) = lang a"

section \<open>Laws of the matcher\<close>

lemma seqs_Nil: "seqs [] = Empty"
  by (simp add: seqs_def)

lemma seqs_Cons: "seqs (r # rs) = Seq r (seqs rs)"
  by (simp add: seqs_def)

lemma lits_Nil: "lits [] = Empty"
  by (simp add: lits_def seqs_def)

lemma lits_Cons: "lits (c # l) = Seq (Atom (Lit c)) (lits l)"
  by (simp add: lits_def seqs_def)

lemma matches_lits:
  "matches (lits l) (g, s) = (if prefix l s then [(g, drop (length l) s)] else [])"
proof (induction l arbitrary: s)
  case Nil
  show ?case by (simp add: lits_Nil)
next
  case (Cons c l)
  show ?case by (cases s) (simp_all add: lits_Cons Cons.IH)
qed

text \<open>A pattern that cannot match the empty text.\<close>

definition consuming :: "regex \<Rightarrow> bool" where
  "consuming r \<longleftrightarrow> (\<forall>g s g' s'. (g', s') \<in> set (matches r (g, s)) \<longrightarrow> length s' < length s)"

lemma consumingD:
  "consuming r \<Longrightarrow> (g', s') \<in> set (matches r (g, s)) \<Longrightarrow> length s' < length s"
  unfolding consuming_def by blast

lemma find_all: "\<forall>x \<in> set xs. P x \<Longrightarrow> find P xs = (case xs of [] \<Rightarrow> None | x # _ \<Rightarrow> Some x)"
  by (cases xs) auto

lemma match_at_consuming:
  assumes "consuming r"
  shows "match_at r adv s = (case matches r ([], s) of [] \<Rightarrow> None | x # _ \<Rightarrow> Some x)"
  unfolding match_at_def
proof (rule find_all, rule ballI)
  fix x assume x: "x \<in> set (matches r ([], s))"
  obtain g' s' where "x = (g', s')" by (cases x)
  with x consumingD[OF assms] have "length s' < length s" by blast
  with \<open>x = (g', s')\<close> show "case x of (g, s') \<Rightarrow> \<not> (adv \<and> length s' = length s)" by simp
qed

lemma match_at_adv: "consuming r \<Longrightarrow> match_at r adv s = match_at r False s"
  by (simp add: match_at_consuming)

lemma match_at_shorter:
  "consuming r \<Longrightarrow> match_at r adv s = Some (g, s') \<Longrightarrow> length s' < length s"
  by (auto simp: match_at_def dest!: find_SomeD dest: consumingD)

lemma search_adv: "consuming r \<Longrightarrow> search r adv s = search r False s"
  by (cases s) (simp_all add: match_at_adv[of r adv])

lemma sub_loop_adv:
  assumes "consuming r"
  shows "sub_loop r tpl adv s = sub_loop r tpl False s"
proof -
  have "sub_loop r tpl adv s =
     (case search r False s of
        None \<Rightarrow> s
      | Some (skipped, g, s') \<Rightarrow>
          skipped @ expand tpl g @ sub_loop r tpl (length skipped + length s' = length s) s')"
    using sub_loop.simps[of r tpl adv s] by (simp add: search_adv[OF assms, of adv])
  also have "\<dots> = sub_loop r tpl False s"
    using sub_loop.simps[of r tpl False s] by simp
  finally show ?thesis .
qed

lemma sub_loop_Nil:
  assumes "consuming r"
  shows "sub_loop r tpl adv [] = []"
proof -
  have "matches r ([], []) = []"
  proof (cases "matches r ([], [])")
    case (Cons x xs)
    obtain g' s' where "x = (g', s')" by (cases x)
    with Cons consumingD[OF assms, of g' s' "[]" "[]"] show ?thesis by simp
  qed simp
  then have "search r adv [] = None"
    by (simp add: match_at_consuming[OF assms])
  then show ?thesis using sub_loop.simps[of r tpl adv "[]"] by simp
qed

lemma sub_loop_skip:
  assumes "consuming r" and "match_at r False (c # t) = None"
  shows "sub_loop r tpl adv (c # t) = c # sub_loop r tpl False t"
proof (cases "search r False t")
  case None
  then have "search r adv (c # t) = None"
    using assms by (simp add: match_at_adv[OF assms(1), of adv])
  with None show ?thesis
    using sub_loop.simps[of r tpl adv "c # t"] sub_loop.simps[of r tpl False t] by simp
next
  case (Some m)
  obtain sk g s' where m: "m = (sk, g, s')" by (cases m)
  with Some have "search r adv (c # t) = Some (c # sk, g, s')"
    using assms by (simp add: match_at_adv[OF assms(1), of adv])
  then have "sub_loop r tpl adv (c # t) =
      c # sk @ expand tpl g @ sub_loop r tpl (length (c # sk) + length s' = length (c # t)) s'"
    using sub_loop.simps[of r tpl adv "c # t"] by simp
  moreover have "sub_loop r tpl False t =
      sk @ expand tpl g @ sub_loop r tpl (length sk + length s' = length t) s'"
    using sub_loop.simps[of r tpl False t] Some m by simp
  ultimately show ?thesis
    by (simp add: sub_loop_adv[OF assms(1), of tpl "_ = _"])
qed

lemma sub_loop_match:
  assumes "consuming r" and "match_at r False s = Some (g, s')"
  shows "sub_loop r tpl adv s = expand tpl g @ sub_loop r tpl False s'"
proof -
  have "search r adv s = Some ([], g, s')"
    using assms by (cases s) (simp_all add: match_at_adv[OF assms(1), of adv])
  then have "sub_loop r tpl adv s = expand tpl g @ sub_loop r tpl (length s' = length s) s'"
    using sub_loop.simps[of r tpl adv s] by simp
  then show ?thesis
    by (simp add: sub_loop_adv[OF assms(1), of tpl "_ = _"])
qed

lemma sub_loop_unfold:
  assumes "consuming r"
  shows "sub_loop r tpl adv (c # t) =
     (case match_at r False (c # t) of
        Some (g, s') \<Rightarrow> expand tpl g @ sub_loop r tpl False s'
      | None \<Rightarrow> c # sub_loop r tpl False t)"
  using sub_loop_skip[OF assms, of c t tpl adv] sub_loop_match[OF assms, of "c # t" _ _ tpl adv]
  by (auto split: option.splits)

lemma consuming_lits: "l \<noteq> [] \<Longrightarrow> consuming (lits l)"
  by (auto simp: consuming_def matches_lits prefix_def split: if_splits)

lemma match_at_lits:
  "l \<noteq> [] \<Longrightarrow> match_at (lits l) adv s = (if prefix l s then Some ([], drop (length l) s) else None)"
  by (simp add: match_at_consuming consuming_lits matches_lits)

text \<open>Literal substitution, as a plain recursion on the text.\<close>

lemma sub_lits_Nil: "l \<noteq> [] \<Longrightarrow> sub_loop (lits l) tpl adv [] = []"
  by (simp add: sub_loop_Nil consuming_lits)

lemma sub_lits_Cons:
  "l \<noteq> [] \<Longrightarrow> sub_loop (lits l) tpl adv (c # t) =
     (if prefix l (c # t) then expand tpl [] @ sub_loop (lits l) tpl False (drop (length l) (c # t))
      else c # sub_loop (lits l) tpl False t)"
  by (simp add: sub_loop_unfold consuming_lits match_at_lits)

lemma sub_lits_absent:
  "l \<noteq> [] \<Longrightarrow> \<not> sublist l s \<Longrightarrow> sub_loop (lits l) tpl adv s = s"
proof (induction s arbitrary: adv)
  case Nil
  then show ?case by (simp add: sub_lits_Nil)
next
  case (Cons c t)
  then show ?case by (simp add: sub_lits_Cons sublist_Cons_right)
qed

subsection \<open>White space runs\<close>

definition rejects_space :: "regex \<Rightarrow> bool" where
  "rejects_space k \<longleftrightarrow> (\<forall>g c s. is_space c \<longrightarrow> matches k (g, c # s) = [])"

lemma repeat_space_greedy:
  assumes "rejects_space k"
  shows "concat (map (\<lambda>s'. matches k (G s', s')) (repeat_one Space s)) =
         matches k (G (dropWhile is_space s), dropWhile is_space s)"
proof (induction s)
  case Nil
  show ?case by simp
next
  case (Cons c t)
  show ?case
  proof (cases "is_space c")
    case True
    with assms have "matches k (G (c # t), c # t) = []" by (simp add: rejects_space_def)
    with True Cons show ?thesis by simp
  next
    case False
    then show ?thesis by simp
  qed
qed

lemma take_length_dropWhile: "take (length s - length (dropWhile P s)) s = takeWhile P s"
proof -
  have "length s - length (dropWhile P s) = length (takeWhile P s)"
    by (metis add_diff_cancel_right' length_append takeWhile_dropWhile_id)
  then show ?thesis
    by (metis append_eq_conv_conj takeWhile_dropWhile_id)
qed

lemma matches_space_run:
  assumes "rejects_space k"
  shows "matches (Seq (Plus Space) k) (g, s) =
     (case s of [] \<Rightarrow> [] | c # t \<Rightarrow> if is_space c then matches k (g, dropWhile is_space t) else [])"
proof (cases s)
  case (Cons c t)
  show ?thesis
    using repeat_space_greedy[OF assms, of "\<lambda>_. g" t]
    by (simp add: Cons comp_def)
qed simp

lemma matches_space_group:
  assumes "rejects_space k"
  shows "matches (Seq (Group n (Plus Space)) k) (g, s) =
     (case s of [] \<Rightarrow> []
      | c # t \<Rightarrow> if is_space c
                then matches k ((n, c # takeWhile is_space t) # g, dropWhile is_space t) else [])"
proof (cases s)
  case (Cons c t)
  have tk: "take (Suc (length t) - length (dropWhile is_space t)) (c # t) = c # takeWhile is_space t"
  proof -
    have "length (dropWhile is_space t) \<le> length t" by (rule length_dropWhile_le)
    then have "Suc (length t) - length (dropWhile is_space t) = Suc (length t - length (dropWhile is_space t))"
      by simp
    then show ?thesis by (simp add: take_length_dropWhile)
  qed
  show ?thesis
    using repeat_space_greedy[OF assms, of "\<lambda>s'. (n, take (Suc (length t) - length s') (c # t)) # g" t]
    by (simp add: Cons comp_def tk)
qed simp

lemma rejects_space_lits: "\<not> is_space c \<Longrightarrow> rejects_space (Seq (lits (c # l)) k)"
  by (auto simp: rejects_space_def matches_lits)

lemma rejects_space_Opt:
  "rejects_space (Seq a k) \<Longrightarrow> rejects_space k \<Longrightarrow> rejects_space (Seq (Opt a) k)"
  by (auto simp: rejects_space_def)


subsection \<open>Pattern 1\<close>

definition idiom_tail :: regex where
  "idiom_tail = seqs
     [Opt (seqs [lits (str ''// Save and restore working directory''), Plus Space]),
      lits (str ''origDir, _ := os.Getwd()''), Plus Space,
      lits (str ''defer os.Chdir(origDir)''), Plus Space,
      Opt (seqs [lits (str ''// Given: ''), Star AnyChar, Plus Space]),
      lits (str ''tempDir := t.TempDir()''), Plus Space,
      lits (str ''os.Chdir(tempDir)'')]"

lemma pattern1_split: "pattern1 = Seq (Group 1 (Plus Space)) idiom_tail"
  by (simp add: pattern1_def idiom_tail_def seqs_Cons)

lemma str_Cons: "str (c # cs) = of_char c # str cs"
  by (simp add: str_def)

lemma concat_map_concat:
  "concat (map f (concat (map h xs))) = concat (map (\<lambda>x. concat (map f (h x))) xs)"
  by (induction xs) auto

lemma matches_Seq_assoc: "matches (Seq (Seq a b) k) st = matches (Seq a (Seq b k)) st"
proof -
  have "matches (Seq b k) = (\<lambda>x. concat (map (matches k) (matches b x)))"
    by (rule ext) simp
  then show ?thesis by (simp add: concat_map_concat)
qed

lemma seqs_Seq_assoc: "matches (Seq (seqs (a # as)) k) st = matches (Seq a (Seq (seqs as) k)) st"
  by (simp only: seqs_Cons matches_Seq_assoc)

lemma rejects_space_idiom_tail: "rejects_space idiom_tail"
  unfolding idiom_tail_def
  apply (subst seqs_Cons)
  apply (rule rejects_space_Opt)
  subgoal
    apply (simp only: rejects_space_def seqs_Seq_assoc str_Cons)
    apply (auto simp: matches_lits is_space_def)
    done
  subgoal
    apply (simp only: seqs_Cons str_Cons)
    apply (rule rejects_space_lits)
    apply (simp add: is_space_def)
    done
  done


lemma rejects_space_Empty: "rejects_space k \<Longrightarrow> rejects_space (Seq Empty k)"
  by (simp add: rejects_space_def)

lemma rejects_space_assoc: "rejects_space (Seq a (Seq b k)) \<Longrightarrow> rejects_space (Seq (Seq a b) k)"
  by (simp add: rejects_space_def matches_Seq_assoc del: matches.simps)

lemma matches_lit_step:
  "matches (Seq (lits l) k) (g, s) = (if prefix l s then matches k (g, drop (length l) s) else [])"
  by (simp add: matches_lits)

lemma matches_opt_step: "matches (Seq (Opt a) k) st = matches (Seq a k) st @ matches k st"
  by simp

lemma matches_empty_step: "matches (Seq Empty k) st = matches k st"
  by simp

lemma matches_star_step:
  "matches (Seq (Star cs) k) (g, s) = concat (map (\<lambda>s'. matches k (g, s')) (repeat_one cs s))"
  by (simp add: comp_def)

lemma consuming_pattern1: "consuming pattern1"
  unfolding consuming_def
proof (intro allI impI)
  fix g s g' s'
  assume m: "(g', s') \<in> set (matches pattern1 (g, s))"
  then obtain c t where s: "s = c # t"
    and m': "(g', s') \<in> set (matches idiom_tail ((1, c # takeWhile is_space t) # g, dropWhile is_space t))"
    unfolding pattern1_split matches_space_group[OF rejects_space_idiom_tail]
    by (auto split: list.splits if_splits)
  from matches_length[OF m'] have "length s' \<le> length (dropWhile is_space t)" .
  also have "\<dots> \<le> length t" by (rule length_dropWhile_le)
  finally show "length s' < length s" using s by simp
qed

lemma matches_pattern1:
  "matches pattern1 (g, s) =
     (case s of [] \<Rightarrow> []
      | c # t \<Rightarrow> if is_space c
                then matches idiom_tail ((1, c # takeWhile is_space t) # g, dropWhile is_space t) else [])"
  unfolding pattern1_split by (rule matches_space_group[OF rejects_space_idiom_tail])

lemmas eval_tail = idiom_tail_def seqs_Cons seqs_Nil matches_lit_step matches_opt_step
  matches_empty_step matches_star_step matches_Seq_assoc matches_space_run
  rejects_space_Empty rejects_space_assoc rejects_space_lits rejects_space_Opt
  str_def is_space_def

subsection \<open>The rules never raise\<close>

lemma bad_reference_lit: "bad_reference r [TLit t] = None"
  by simp

lemma num_groups_pattern1: "num_groups pattern1 = 1"
  by (simp add: pattern1_def seqs_def lits_def comp_def str_def)

lemma pattern1_sub_eq: "pattern1_sub s = Inr (sub_loop pattern1 replacement1 False s)"
  by (simp add: pattern1_sub_def re_sub_def replacement1_def num_groups_pattern1)

lemma pattern2_sub_eq: "pattern2_sub s = Inr (sub_loop pattern2 replacement2 False s)"
  by (simp add: pattern2_sub_def re_sub_def replacement2_def)

lemma pattern3_sub_eq:
  "pattern3_sub s = Inr (sub_loop pattern3c replacement3c False
     (sub_loop pattern3b replacement3b False (sub_loop pattern3a replacement3a False s)))"
  by (simp add: pattern3_sub_def re_sub_def and_then_def replacement3a_def replacement3b_def
      replacement3c_def)

lemma rewrite_eq:
  "rewrite s = (let t = sub_loop pattern3c replacement3c False
     (sub_loop pattern3b replacement3b False (sub_loop pattern3a replacement3a False
     (sub_loop pattern2 replacement2 False (sub_loop pattern1 replacement1 False s))))
   in Inr (t, t \<noteq> s))"
  by (simp add: rewrite_def pattern1_sub_eq pattern2_sub_eq pattern3_sub_eq and_then_def Let_def)

declare matches.simps [simp del]
declare matches.simps(1) [simp]

lemmas eval_p1 = sub_loop_unfold[OF consuming_pattern1] sub_loop_Nil[OF consuming_pattern1]
      match_at_consuming[OF consuming_pattern1] matches_pattern1 eval_tail

lemmas eval_lits = pattern2_def pattern3a_def pattern3b_def pattern3c_def
  replacement2_def replacement3a_def replacement3b_def replacement3c_def replacement1_def
  sub_lits_Cons sub_lits_Nil

subsection \<open>Parentheses\<close>



lemma sub_lits_prefix:
  "l \<noteq> [] \<Longrightarrow> sub_loop (lits l) tpl adv (l @ s) = expand tpl [] @ sub_loop (lits l) tpl False s"
proof (cases l)
  case (Cons x l')
  have "sub_loop (lits l) tpl adv (x # l' @ s) =
     (if prefix l (x # l' @ s)
      then expand tpl [] @ sub_loop (lits l) tpl False (drop (length l) (x # l' @ s))
      else x # sub_loop (lits l) tpl False (l' @ s))"
    by (rule sub_lits_Cons) (simp add: Cons)
  moreover have "prefix l (x # l' @ s)" "drop (length l) (x # l' @ s) = s"
    by (simp_all add: Cons)
  ultimately show ?thesis by (simp add: Cons)
qed simp



subsection \<open>Literal patterns\<close>

lemma sub_loop_no_match: "search r adv s = None \<Longrightarrow> sub_loop r tpl adv s = s"
  using sub_loop.simps[of r tpl adv s] by simp

lemma search_lits_absent: "l \<noteq> [] \<Longrightarrow> \<not> sublist l s \<Longrightarrow> search (lits l) adv s = None"
proof (induction s arbitrary: adv)
  case Nil
  then show ?case by (simp add: match_at_lits)
next
  case (Cons c t)
  then show ?case by (simp add: match_at_lits sublist_Cons_right)
qed

lemma prefix_overlap:
  assumes "l \<noteq> []" and "hd l \<notin> set (tl l)" and "prefix l (u @ l @ v)"
  shows "u = [] \<or> prefix l u"
proof -
  from assms(3) have "prefix l u \<or> (\<exists>us. l = u @ us \<and> prefix us (l @ v))"
    by (simp only: prefix_append)
  then show ?thesis
  proof (elim disjE exE conjE)
    fix us assume l: "l = u @ us" and p: "prefix us (l @ v)"
    show ?thesis
    proof (cases u)
      case (Cons x u')
      show ?thesis
      proof (cases us)
        case Nil
        with l show ?thesis by simp
      next
        case (Cons y us')
        obtain z l' where zl: "l = z # l'" using assms(1) by (cases l) auto
        from p Cons zl have "y = z" by simp
        moreover from l \<open>u = x # u'\<close> Cons have "y \<in> set (tl l)" by simp
        ultimately show ?thesis using assms(2) zl by simp
      qed
    qed simp
  qed simp
qed

lemma sub_lits_first:
  assumes "l \<noteq> []" and "hd l \<notin> set (tl l)"
  shows "\<not> sublist l pre \<Longrightarrow>
     sub_loop (lits l) tpl adv (pre @ l @ post) = pre @ expand tpl [] @ sub_loop (lits l) tpl False post"
proof (induction pre arbitrary: adv)
  case Nil
  show ?case using assms(1) by (simp add: sub_lits_prefix)
next
  case (Cons c p)
  then have np: "\<not> prefix l (c # p)" and ns: "\<not> sublist l p"
    by (auto simp: sublist_Cons_right)
  have "\<not> prefix l ((c # p) @ l @ post)"
    using prefix_overlap[OF assms, of "c # p" post] np by auto
  then show ?case using Cons.IH[OF ns] assms(1) by (simp add: sub_lits_Cons)
qed

lemmas eval_search = search.simps match_at_consuming[OF consuming_pattern1] matches_pattern1 eval_tail

subsection \<open>Pattern 1 on white space and on the idiom\<close>

lemma is_space_numeral:
  "is_space (numeral k) \<longleftrightarrow>
     (9 \<le> (numeral k :: nat) \<and> (numeral k :: nat) \<le> 13) \<or> (28 \<le> (numeral k :: nat) \<and> (numeral k :: nat) \<le> 32)
      \<or> (numeral k :: nat) = 133 \<or> (numeral k :: nat) = 160 \<or> (numeral k :: nat) = 5760 \<or>
     (8192 \<le> (numeral k :: nat) \<and> (numeral k :: nat) \<le> 8202) \<or> (numeral k :: nat) = 8232
      \<or> (numeral k :: nat) = 8233 \<or> (numeral k :: nat) = 8239 \<or> (numeral k :: nat) = 8287
      \<or> (numeral k :: nat) = 12288"
  by (simp add: is_space_def)

lemma dropWhile_space_run:
  "\<forall>c\<in>set w. is_space c \<Longrightarrow> \<not> is_space x \<Longrightarrow> dropWhile is_space (w @ x # X) = x # X"
  by (induction w) auto

lemma takeWhile_space_run:
  "\<forall>c\<in>set w. is_space c \<Longrightarrow> \<not> is_space x \<Longrightarrow> takeWhile is_space (w @ x # X) = w"
  by (induction w) auto

definition later_ways :: "pystr \<Rightarrow> pystr \<Rightarrow> pystr list" where
  "later_ways u Y = tl (repeat_one AnyChar (u @ 10 # Y))"

lemma repeat_any_line_ex:
  "10 \<notin> set u \<Longrightarrow> \<exists>ws. repeat_one AnyChar (u @ 10 # Y) = (10 # Y) # ws"
  by (induction u) auto

lemma repeat_any_line:
  assumes "10 \<notin> set u"
  shows "repeat_one AnyChar (u @ 10 # Y) = (10 # Y) # later_ways u Y"
proof -
  from repeat_any_line_ex[OF assms] obtain ws
    where "repeat_one AnyChar (u @ 10 # Y) = (10 # Y) # ws" by blast
  then show ?thesis by (simp add: later_ways_def)
qed

lemmas eval_sym = idiom_tail_def seqs_Cons seqs_Nil matches_lit_step matches_opt_step
  matches_empty_step matches_star_step matches_Seq_assoc matches_space_run
  rejects_space_Empty rejects_space_assoc rejects_space_lits rejects_space_Opt
  str_def is_space_numeral dropWhile_space_run takeWhile_space_run repeat_any_line
  sub_loop_unfold[OF consuming_pattern1] sub_loop_Nil[OF consuming_pattern1]
  match_at_consuming[OF consuming_pattern1] matches_pattern1

lemma collapse_snippet:
  assumes "is_space c" and "\<forall>c\<in>set w. is_space c" and "\<forall>u. given = Some u \<longrightarrow> 10 \<notin> set u"
  shows "sub_loop pattern1 replacement1 False (snippet (c # w) lead given) =
     (c # w) @ str ''WithIsolatedDirectory(t, func(workingDir string) {''"
  using assms
  by (cases lead; cases given) (simp_all add: snippet_def eval_sym replacement1_def)

lemma skip_space_run:
  assumes "\<forall>c\<in>set w. is_space c" and "\<not> is_space y"
    and "\<forall>g. matches idiom_tail (g, y # Y) = []"
  shows "sub_loop pattern1 tpl adv (w @ y # Y) = w @ sub_loop pattern1 tpl False (y # Y)"
  using assms(1)
proof (induction w arbitrary: adv)
  case Nil
  show ?case by (simp add: sub_loop_adv[OF consuming_pattern1, of tpl adv])
next
  case (Cons c w)
  then have "match_at pattern1 False (c # w @ y # Y) = None"
    using assms(2,3)
    by (simp add: match_at_consuming[OF consuming_pattern1] matches_pattern1 dropWhile_space_run)
  from sub_loop_skip[OF consuming_pattern1 this] Cons show ?case by simp
qed

lemma skip_space_run_lits:
  assumes "\<forall>c\<in>set w. is_space c" and "\<not> is_space x"
  shows "sub_loop (lits (x # l)) tpl adv (w @ Y) = w @ sub_loop (lits (x # l)) tpl False Y"
  using assms(1)
proof (induction w arbitrary: adv)
  case Nil
  show ?case by (simp add: sub_loop_adv[OF consuming_lits, of "x # l" tpl adv])
next
  case (Cons c w)
  with assms(2) have "c \<noteq> x" by auto
  with Cons show ?case by (simp add: sub_lits_Cons)
qed

subsection \<open>The search finds the texts of the pattern, and only them\<close>

lemma repeat_one_sound:
  "t \<in> set (repeat_one cs s) \<Longrightarrow> \<exists>w. s = w @ t \<and> (\<forall>c\<in>set w. in_charset cs c)"
proof (induction s)
  case Nil
  then show ?case by simp
next
  case (Cons c s)
  show ?case
  proof (cases "t = c # s")
    case True
    then show ?thesis by simp
  next
    case False
    with Cons.prems have "in_charset cs c" "t \<in> set (repeat_one cs s)"
      by (auto split: if_splits)
    with Cons.IH obtain w where "s = w @ t" "\<forall>c\<in>set w. in_charset cs c" by blast
    with \<open>in_charset cs c\<close> have "c # s = (c # w) @ t \<and> (\<forall>c\<in>set (c # w). in_charset cs c)"
      by simp
    then show ?thesis by blast
  qed
qed

lemma matches_sound:
  "(g', s') \<in> set (matches r (g, s)) \<Longrightarrow> \<exists>w\<in>lang r. s = w @ s'"
proof (induction r arbitrary: g s g' s')
  case Empty
  then show ?case by (simp add: matches.simps)
next
  case (Atom cs)
  then show ?case by (cases s) (auto simp: matches.simps split: if_splits)
next
  case (Seq a b)
  then obtain g1 s1 where 1: "(g1, s1) \<in> set (matches a (g, s))"
    and 2: "(g', s') \<in> set (matches b (g1, s1))"
    by (auto simp: matches.simps)
  from Seq.IH(1)[OF 1] obtain u where u: "u \<in> lang a" "s = u @ s1" by blast
  from Seq.IH(2)[OF 2] obtain v where v: "v \<in> lang b" "s1 = v @ s'" by blast
  from u v have "u @ v \<in> lang (Seq a b)" "s = (u @ v) @ s'" by auto
  then show ?case by blast
next
  case (Opt a)
  then show ?case by (auto simp: matches.simps)
next
  case (Plus cs)
  then obtain c t where s: "s = c # t" and c: "in_charset cs c"
    and m: "s' \<in> set (repeat_one cs t)"
    by (cases s) (auto simp: matches.simps split: if_splits)
  from repeat_one_sound[OF m] obtain w where "t = w @ s'" "\<forall>c\<in>set w. in_charset cs c" by blast
  with s c have "c # w \<in> lang (Plus cs)" "s = (c # w) @ s'" by auto
  then show ?case by blast
next
  case (Star cs)
  then have "s' \<in> set (repeat_one cs s)" by (auto simp: matches.simps)
  from repeat_one_sound[OF this] show ?case by auto
next
  case (Group n a)
  then obtain g0 where "(g0, s') \<in> set (matches a (g, s))" by (auto simp: matches.simps)
  with Group.IH show ?case by auto
qed

lemma match_at_sound:
  "match_at r adv s = Some (g, s') \<Longrightarrow> \<exists>w\<in>lang r. s = w @ s'"
  by (auto simp: match_at_def dest!: find_SomeD dest: matches_sound)

lemma search_sound:
  "search r adv s = Some (skipped, g, s') \<Longrightarrow> \<exists>w\<in>lang r. s = skipped @ w @ s'"
proof (induction s arbitrary: adv skipped)
  case Nil
  then show ?case by (auto split: option.splits dest: match_at_sound)
next
  case (Cons c s)
  show ?case
  proof (cases "match_at r adv (c # s)")
    case None
    with Cons.prems obtain sk where "search r False s = Some (sk, g, s')" "skipped = c # sk"
      by (auto split: option.splits)
    with Cons.IH show ?thesis by fastforce
  next
    case (Some m)
    with Cons.prems have "match_at r adv (c # s) = Some (g, s')" "skipped = []"
      by (auto split: prod.splits)
    then show ?thesis using match_at_sound by fastforce
  qed
qed

lemma search_None_if_no_word:
  assumes "\<forall>w\<in>lang r. \<not> sublist w s"
  shows "search r adv s = None"
proof (cases "search r adv s")
  case (Some m)
  obtain sk g s' where "m = (sk, g, s')" by (cases m)
  with Some search_sound obtain w where "w \<in> lang r" "s = sk @ w @ s'" by blast
  then have "sublist w s" by (auto simp: sublist_def)
  with assms \<open>w \<in> lang r\<close> show ?thesis by blast
qed simp


lemma repeat_one_self: "s \<in> set (repeat_one cs s)"
  by (cases s) auto

lemma repeat_one_complete:
  "\<forall>c\<in>set w. in_charset cs c \<Longrightarrow> s \<in> set (repeat_one cs (w @ s))"
  by (induction w) (auto simp: repeat_one_self)

lemma matches_complete:
  "w \<in> lang r \<Longrightarrow> \<exists>g'. (g', s') \<in> set (matches r (g, w @ s'))"
proof (induction r arbitrary: g w s')
  case Empty
  then show ?case by (simp add: matches.simps)
next
  case (Atom cs)
  then show ?case by (auto simp: matches.simps)
next
  case (Seq a b)
  then obtain u v where w: "w = u @ v" and u: "u \<in> lang a" and v: "v \<in> lang b" by auto
  from Seq.IH(1)[OF u, of "v @ s'" g] obtain g1
    where 1: "(g1, v @ s') \<in> set (matches a (g, u @ v @ s'))" by blast
  from Seq.IH(2)[OF v, of s' g1] obtain g'
    where 2: "(g', s') \<in> set (matches b (g1, v @ s'))" by blast
  from 1 2 have "(g', s') \<in> set (matches (Seq a b) (g, w @ s'))"
    by (auto simp: matches.simps w)
  then show ?case by blast
next
  case (Opt a)
  show ?case
  proof (cases "w = []")
    case True
    then show ?thesis by (auto simp: matches.simps)
  next
    case False
    with Opt.prems have "w \<in> lang a" by simp
    from Opt.IH[OF this, of s' g] show ?thesis by (auto simp: matches.simps)
  qed
next
  case (Plus cs)
  then obtain c t where w: "w = c # t" and c: "in_charset cs c" and t: "\<forall>c\<in>set t. in_charset cs c"
    by (cases w) auto
  from repeat_one_complete[OF t, of s'] c show ?case
    by (auto simp: matches.simps w)
next
  case (Star cs)
  then have "\<forall>c\<in>set w. in_charset cs c" by simp
  from repeat_one_complete[OF this, of s'] show ?case by (auto simp: matches.simps)
next
  case (Group n a)
  then have "w \<in> lang a" by simp
  from Group.IH[OF this, of s' g] obtain g0 where "(g0, s') \<in> set (matches a (g, w @ s'))"
    by blast
  then show ?case by (force simp: matches.simps)
qed

lemma match_at_complete:
  assumes "w \<in> lang r"
  shows "match_at r False (w @ s') \<noteq> None"
proof -
  from matches_complete[OF assms, of s' "[]"] obtain g'
    where "(g', s') \<in> set (matches r ([], w @ s'))" by blast
  then show ?thesis by (auto simp: match_at_def find_None_iff)
qed

lemma search_complete:
  assumes "w \<in> lang r"
  shows "search r False (pre @ w @ s') \<noteq> None"
proof (induction pre)
  case Nil
  from match_at_complete[OF assms, of s'] show ?case
    by (cases "w @ s'") (auto split: option.splits)
next
  case (Cons c pre)
  then show ?case by (auto split: option.splits)
qed

lemma search_None_iff:
  "search r False s = None \<longleftrightarrow> (\<forall>w\<in>lang r. \<not> sublist w s)"
proof
  assume n: "search r False s = None"
  show "\<forall>w\<in>lang r. \<not> sublist w s"
  proof (intro ballI notI)
    fix w assume "w \<in> lang r" "sublist w s"
    then obtain pre s' where "s = pre @ w @ s'" by (auto simp: sublist_def)
    with search_complete[OF \<open>w \<in> lang r\<close>, of pre s'] n show False by simp
  qed
next
  assume "\<forall>w\<in>lang r. \<not> sublist w s"
  then show "search r False s = None" by (rule search_None_if_no_word)
qed

subsection \<open>No occurrence is left by a literal substitution\<close>

lemma first_occurrence:
  assumes "l \<noteq> []"
  shows "sublist l s \<Longrightarrow> \<exists>pre post. s = pre @ l @ post \<and> \<not> sublist l pre"
proof (induction s)
  case Nil
  with assms show ?case by simp
next
  case (Cons c t)
  show ?case
  proof (cases "prefix l (c # t)")
    case True
    then obtain post where "c # t = [] @ l @ post" by (auto simp: prefix_def)
    moreover have "\<not> sublist l []" using assms by simp
    ultimately show ?thesis by blast
  next
    case False
    with Cons.prems have "sublist l t" by (simp add: sublist_Cons_right)
    with Cons.IH obtain pre post where t: "t = pre @ l @ post" and n: "\<not> sublist l pre" by blast
    have "\<not> prefix l (c # pre)"
    proof
      assume "prefix l (c # pre)"
      then have "prefix l (c # pre @ l @ post)" by (metis Cons_eq_appendI prefix_prefix)
      with False t show False by simp
    qed
    with n have "\<not> sublist l (c # pre)" by (simp add: sublist_Cons_right)
    moreover have "c # t = (c # pre) @ l @ post" using t by simp
    ultimately show ?thesis by blast
  qed
qed

lemma no_straddle_right:
  assumes "r \<noteq> []" and "last r \<notin> set (butlast l)"
    and "\<not> sublist l r" and "\<not> sublist l t"
  shows "\<not> sublist l (r @ t)"
proof
  assume "sublist l (r @ t)"
  then consider "sublist l r" | "sublist l t"
    | y1 y2 where "l = y1 @ y2" "suffix y1 r" "prefix y2 t"
    by (auto simp: sublist_append)
  then show False
  proof cases
    case 1 with assms(3) show False by simp
  next
    case 2 with assms(4) show False by simp
  next
    case 3
    show False
    proof (cases "y1 = [] \<or> y2 = []")
      case True
      then show False
      proof
        assume "y1 = []"
        with 3 have "prefix l t" by simp
        then have "sublist l t" by (rule prefix_imp_sublist)
        with assms(4) show False by simp
      next
        assume "y2 = []"
        with 3 have "suffix l r" by simp
        then have "sublist l r" by (rule suffix_imp_sublist)
        with assms(3) show False by simp
      qed
    next
      case False
      then have ne: "y1 \<noteq> []" "y2 \<noteq> []" by simp_all
      from 3(2) ne(1) assms(1) have "last y1 = last r" by (auto simp: suffix_def)
      moreover from 3(1) ne have "last y1 \<in> set (butlast l)"
        by (simp add: butlast_append)
      ultimately show False using assms(2) by simp
    qed
  qed
qed

lemma no_straddle:
  assumes "r \<noteq> []" and "hd r \<notin> set l" and "last r \<notin> set (butlast l)"
    and "\<not> sublist l pre" and "\<not> sublist l r" and "\<not> sublist l t"
  shows "\<not> sublist l (pre @ r @ t)"
proof
  note right = no_straddle_right[OF assms(1,3,5,6)]
  assume "sublist l (pre @ r @ t)"
  then consider "sublist l pre" | "sublist l (r @ t)"
    | x1 x2 where "l = x1 @ x2" "suffix x1 pre" "prefix x2 (r @ t)"
    by (auto simp: sublist_append)
  then show False
  proof cases
    case 1
    with assms(4) show False by simp
  next
    case 2
    with right show False by simp
  next
    case 3
    show False
    proof (cases "x1 = [] \<or> x2 = []")
      case True
      then show False
      proof
        assume "x1 = []"
        with 3 have "prefix l (r @ t)" by simp
        then have "sublist l (r @ t)" by (rule prefix_imp_sublist)
        with right show False by simp
      next
        assume "x2 = []"
        with 3 have "suffix l pre" by simp
        then have "sublist l pre" by (rule suffix_imp_sublist)
        with assms(4) show False by simp
      qed
    next
      case False
      then have ne: "x1 \<noteq> []" "x2 \<noteq> []" by simp_all
      from 3(3) ne(2) assms(1) have "hd x2 = hd r"
        by (cases x2; cases r) (auto simp: prefix_def)
      moreover from 3(1) ne(2) have "hd x2 \<in> set l" by (cases x2) auto
      ultimately show False using assms(2) by simp
    qed
  qed
qed

lemma sub_lits_no_occurrence:
  assumes "l \<noteq> []" and "hd l \<notin> set (tl l)"
    and "r \<noteq> []" and "hd r \<notin> set l" and "last r \<notin> set (butlast l)" and "\<not> sublist l r"
  shows "\<not> sublist l (sub_loop (lits l) [TLit r] adv s)"
proof (induction s arbitrary: adv rule: length_induct)
  case (1 s)
  show ?case
  proof (cases "sublist l s")
    case False
    then show ?thesis using assms(1) by (simp add: sub_lits_absent)
  next
    case True
    from first_occurrence[OF assms(1) True] obtain pre post
      where s: "s = pre @ l @ post" and n: "\<not> sublist l pre" by blast
    from s assms(1) have "length post < length s" by (cases l) auto
    with 1 have ih: "\<not> sublist l (sub_loop (lits l) [TLit r] False post)" by blast
    have "sub_loop (lits l) [TLit r] adv s = pre @ r @ sub_loop (lits l) [TLit r] False post"
      unfolding s using sub_lits_first[OF assms(1,2) n] by simp
    with no_straddle[OF assms(3,4,5) n assms(6) ih] show ?thesis by simp
  qed
qed

section \<open>The path-qualification rules\<close>



text \<open>
  Claim C2: each of the three templates ends with a closing parenthesis, and the whole
  chain turns the complete calls into complete calls with balanced parentheses.
\<close>

theorem templates_end_with_closing_parenthesis:
  "(\<forall>g. last (expand replacement3a g) = of_char CHR '')'')
   \<and> (\<forall>g. last (expand replacement3b g) = of_char CHR '')'')
   \<and> (\<forall>g. last (expand replacement3c g) = of_char CHR '')'')
   \<and> rewrite (str ''assert.FileExists(t, \".ddx.yml\")'') =
         Inr (str ''assert.FileExists(t, filepath.Join(workingDir, \".ddx.yml\"))'', True)
   \<and> balanced (str ''assert.FileExists(t, filepath.Join(workingDir, \".ddx.yml\"))'')
   \<and> rewrite (str ''os.WriteFile(\".ddx.yml\", data, 0644)'') =
         Inr (str ''os.WriteFile(filepath.Join(workingDir, \".ddx.yml\"), data, 0644)'', True)
   \<and> balanced (str ''os.WriteFile(filepath.Join(workingDir, \".ddx.yml\"), data, 0644)'')
   \<and> rewrite (str ''os.ReadFile(\".ddx.yml\")'') =
         Inr (str ''os.ReadFile(filepath.Join(workingDir, \".ddx.yml\"))'', True)
   \<and> balanced (str ''os.ReadFile(filepath.Join(workingDir, \".ddx.yml\"))'')"
proof (intro conjI allI)
  show "rewrite (str ''assert.FileExists(t, \".ddx.yml\")'') =
         Inr (str ''assert.FileExists(t, filepath.Join(workingDir, \".ddx.yml\"))'', True)"
    by (simp add: rewrite_eq eval_p1 eval_lits str_def)
  show "rewrite (str ''os.WriteFile(\".ddx.yml\", data, 0644)'') =
         Inr (str ''os.WriteFile(filepath.Join(workingDir, \".ddx.yml\"), data, 0644)'', True)"
    by (simp add: rewrite_eq eval_p1 eval_lits str_def)
  show "rewrite (str ''os.ReadFile(\".ddx.yml\")'') =
         Inr (str ''os.ReadFile(filepath.Join(workingDir, \".ddx.yml\"))'', True)"
    by (simp add: rewrite_eq eval_p1 eval_lits str_def)
qed (simp_all add: replacement3a_def replacement3b_def replacement3c_def balanced_def str_def)

section \<open>Texts without a trigger\<close>

text \<open>
  Claim C4: a text that contains no text of pattern 1 and none of the four literal call
  shapes comes back from the rule chain as it was, with the changed flag false.
\<close>

theorem no_trigger_no_change:
  assumes "\<forall>w\<in>lang pattern1. \<not> sublist w s"
    and "\<not> sublist (str ''getFreshRootCmd()'') s"
    and "\<not> sublist (str ''assert.FileExists(t, \".ddx.yml\"'') s"
    and "\<not> sublist (str ''os.WriteFile(\".ddx.yml\"'') s"
    and "\<not> sublist (str ''os.ReadFile(\".ddx.yml\"'') s"
  shows "rewrite s = Inr (s, False)"
proof -
  have "search pattern1 False s = None"
    using assms(1) by (rule search_None_if_no_word)
  then have "sub_loop pattern1 replacement1 False s = s"
    by (rule sub_loop_no_match)
  moreover have "sub_loop pattern2 replacement2 False s = s"
    unfolding pattern2_def using assms(2) by (intro sub_lits_absent) (simp_all add: str_def)
  moreover have "sub_loop pattern3a replacement3a False s = s"
    unfolding pattern3a_def using assms(3) by (intro sub_lits_absent) (simp_all add: str_def)
  moreover have "sub_loop pattern3b replacement3b False s = s"
    unfolding pattern3b_def using assms(4) by (intro sub_lits_absent) (simp_all add: str_def)
  moreover have "sub_loop pattern3c replacement3c False s = s"
    unfolding pattern3c_def using assms(5) by (intro sub_lits_absent) (simp_all add: str_def)
  ultimately show ?thesis by (simp add: rewrite_eq)
qed

text \<open>
  The theorem of claim C4 at a line of Go without a trigger: the search of pattern 1 finds
  nothing in it, so it contains no text of the pattern.
\<close>

theorem no_trigger_no_change_witness:
  "search pattern1 False (str ''func TestInit(t *testing.T) { run(t) }'') = None
   \<and> \<not> sublist (str ''getFreshRootCmd()'') (str ''func TestInit(t *testing.T) { run(t) }'')
   \<and> \<not> sublist (str ''assert.FileExists(t, \".ddx.yml\"'')
         (str ''func TestInit(t *testing.T) { run(t) }'')
   \<and> \<not> sublist (str ''os.WriteFile(\".ddx.yml\"'') (str ''func TestInit(t *testing.T) { run(t) }'')
   \<and> \<not> sublist (str ''os.ReadFile(\".ddx.yml\"'') (str ''func TestInit(t *testing.T) { run(t) }'')
   \<and> rewrite (str ''func TestInit(t *testing.T) { run(t) }'') =
       Inr (str ''func TestInit(t *testing.T) { run(t) }'', False)"
proof -
  have h0: "search pattern1 False (str ''func TestInit(t *testing.T) { run(t) }'') = None"
    by (simp add: eval_search str_def)
  then have h1: "\<forall>w\<in>lang pattern1. \<not> sublist w (str ''func TestInit(t *testing.T) { run(t) }'')"
    by (simp only: search_None_iff)
  have h2: "\<not> sublist (str ''getFreshRootCmd()'') (str ''func TestInit(t *testing.T) { run(t) }'')"
    by (simp add: str_def sublist_Cons_right)
  have h3: "\<not> sublist (str ''assert.FileExists(t, \".ddx.yml\"'')
         (str ''func TestInit(t *testing.T) { run(t) }'')"
    by (simp add: str_def sublist_Cons_right)
  have h4: "\<not> sublist (str ''os.WriteFile(\".ddx.yml\"'')
         (str ''func TestInit(t *testing.T) { run(t) }'')"
    by (simp add: str_def sublist_Cons_right)
  have h5: "\<not> sublist (str ''os.ReadFile(\".ddx.yml\"'')
         (str ''func TestInit(t *testing.T) { run(t) }'')"
    by (simp add: str_def sublist_Cons_right)
  show ?thesis
    by (intro conjI h0 h2 h3 h4 h5 no_trigger_no_change[OF h1 h2 h3 h4 h5])
qed

section \<open>The call-rename rule\<close>

text \<open>
  Claim C5: the rule replaces the first \<^verbatim>\<open>getFreshRootCmd()\<close> of a text by
  \<^verbatim>\<open>GetCommandInDirectory(workingDir)\<close> and goes on in the same way with the text after it;
  a text without an occurrence is left as it is, and no occurrence is left in the result.
  It does so whether or not pattern 1 matched: there is a text with the call and without
  the idiom that the chain changes.
\<close>

theorem call_rename_is_global:
  "(\<forall>pre post. \<not> sublist (str ''getFreshRootCmd()'') pre \<longrightarrow>
       pattern2_sub (pre @ str ''getFreshRootCmd()'' @ post) =
         map_sum id (\<lambda>t. pre @ str ''GetCommandInDirectory(workingDir)'' @ t) (pattern2_sub post))
   \<and> (\<forall>s. \<not> sublist (str ''getFreshRootCmd()'') s \<longrightarrow> pattern2_sub s = Inr s)
   \<and> (\<forall>s. \<exists>t. pattern2_sub s = Inr t \<and> \<not> sublist (str ''getFreshRootCmd()'') t)
   \<and> search pattern1 False (str ''cmd := getFreshRootCmd()'') = None
   \<and> rewrite (str ''cmd := getFreshRootCmd()'') =
       Inr (str ''cmd := GetCommandInDirectory(workingDir)'', True)"
proof (intro conjI allI impI)
  fix pre post :: pystr
  assume "\<not> sublist (str ''getFreshRootCmd()'') pre"
  then show "pattern2_sub (pre @ str ''getFreshRootCmd()'' @ post) =
         map_sum id (\<lambda>t. pre @ str ''GetCommandInDirectory(workingDir)'' @ t) (pattern2_sub post)"
    unfolding pattern2_sub_eq pattern2_def replacement2_def
    by (subst sub_lits_first) (simp_all add: str_def)
next
  fix s :: pystr
  assume "\<not> sublist (str ''getFreshRootCmd()'') s"
  then show "pattern2_sub s = Inr s"
    unfolding pattern2_sub_eq pattern2_def by (subst sub_lits_absent) (simp_all add: str_def)
next
  fix s :: pystr
  have "\<not> sublist (str ''getFreshRootCmd()'')
          (sub_loop (lits (str ''getFreshRootCmd()''))
             [TLit (str ''GetCommandInDirectory(workingDir)'')] False s)"
    by (rule sub_lits_no_occurrence) (simp_all add: str_def sublist_Cons_right)
  then show "\<exists>t. pattern2_sub s = Inr t \<and> \<not> sublist (str ''getFreshRootCmd()'') t"
    by (simp add: pattern2_sub_eq pattern2_def replacement2_def)
next
  show "search pattern1 False (str ''cmd := getFreshRootCmd()'') = None"
    by (simp add: eval_search str_def)
  show "rewrite (str ''cmd := getFreshRootCmd()'') =
       Inr (str ''cmd := GetCommandInDirectory(workingDir)'', True)"
    by (simp add: rewrite_eq eval_p1 eval_lits str_def)
qed

text \<open>The theorem of claim C5 at two calls on one line.\<close>

theorem call_rename_is_global_witness:
  "\<not> sublist (str ''getFreshRootCmd()'') (str ''a, b := '')
   \<and> \<not> sublist (str ''getFreshRootCmd()'') (str '', '')
   \<and> \<not> sublist (str ''getFreshRootCmd()'') []
   \<and> pattern2_sub (str ''a, b := '' @ str ''getFreshRootCmd()'' @ str '', '' @
         str ''getFreshRootCmd()'' @ []) =
       Inr (str ''a, b := '' @ str ''GetCommandInDirectory(workingDir)'' @ str '', '' @
         str ''GetCommandInDirectory(workingDir)'' @ [])"
proof -
  have h1: "\<not> sublist (str ''getFreshRootCmd()'') (str ''a, b := '')"
    by (simp add: str_def sublist_Cons_right)
  have h2: "\<not> sublist (str ''getFreshRootCmd()'') (str '', '')"
    by (simp add: str_def sublist_Cons_right)
  have h3: "\<not> sublist (str ''getFreshRootCmd()'') []"
    by (simp add: str_def)
  note first = call_rename_is_global[THEN conjunct1, rule_format]
  note none = call_rename_is_global[THEN conjunct2, THEN conjunct1, rule_format]
  have "pattern2_sub [] = Inr []" by (rule none[OF h3])
  then have "pattern2_sub (str '', '' @ str ''getFreshRootCmd()'' @ []) =
      Inr (str '', '' @ str ''GetCommandInDirectory(workingDir)'' @ [])"
    by (simp only: first[OF h2] map_sum.simps id_apply)
  then have "pattern2_sub (str ''a, b := '' @ str ''getFreshRootCmd()'' @ str '', '' @
         str ''getFreshRootCmd()'' @ []) =
       Inr (str ''a, b := '' @ str ''GetCommandInDirectory(workingDir)'' @ str '', '' @
         str ''GetCommandInDirectory(workingDir)'' @ [])"
    by (simp only: first[OF h1] map_sum.simps id_apply)
  with h1 h2 h3 show ?thesis by (intro conjI)
qed

section \<open>The rule chain is total\<close>

text \<open>
  Claim C9: on every text each rule returns a text and the chain returns a text and a flag;
  no rule raises. A rule whose pattern matches nowhere returns the text it was given.
\<close>

theorem rules_never_raise:
  "(\<exists>t. pattern1_sub s = Inr t) \<and> (\<exists>t. pattern2_sub s = Inr t) \<and> (\<exists>t. pattern3_sub s = Inr t)
   \<and> (\<exists>t changed. rewrite s = Inr (t, changed))
   \<and> (search pattern1 False s = None \<longrightarrow> pattern1_sub s = Inr s)
   \<and> (search pattern2 False s = None \<longrightarrow> pattern2_sub s = Inr s)
   \<and> (search pattern3a False s = None \<and> search pattern3b False s = None
        \<and> search pattern3c False s = None \<longrightarrow> pattern3_sub s = Inr s)"
  by (simp add: pattern1_sub_eq pattern2_sub_eq pattern3_sub_eq rewrite_eq Let_def
      sub_loop_no_match)

text \<open>The theorem of claim C9 at a line that no pattern matches.\<close>

theorem rules_never_raise_witness:
  "search pattern1 False (str ''package cmd'') = None
   \<and> search pattern2 False (str ''package cmd'') = None
   \<and> search pattern3a False (str ''package cmd'') = None
   \<and> search pattern3b False (str ''package cmd'') = None
   \<and> search pattern3c False (str ''package cmd'') = None
   \<and> pattern1_sub (str ''package cmd'') = Inr (str ''package cmd'')
   \<and> pattern2_sub (str ''package cmd'') = Inr (str ''package cmd'')
   \<and> pattern3_sub (str ''package cmd'') = Inr (str ''package cmd'')"
proof -
  have h1: "search pattern1 False (str ''package cmd'') = None"
    by (simp add: eval_search str_def)
  have h2: "search pattern2 False (str ''package cmd'') = None"
    unfolding pattern2_def by (rule search_lits_absent) (simp_all add: str_def sublist_Cons_right)
  have h3: "search pattern3a False (str ''package cmd'') = None"
    unfolding pattern3a_def by (rule search_lits_absent) (simp_all add: str_def sublist_Cons_right)
  have h4: "search pattern3b False (str ''package cmd'') = None"
    unfolding pattern3b_def by (rule search_lits_absent) (simp_all add: str_def sublist_Cons_right)
  have h5: "search pattern3c False (str ''package cmd'') = None"
    unfolding pattern3c_def by (rule search_lits_absent) (simp_all add: str_def sublist_Cons_right)
  note r = rules_never_raise[of "str ''package cmd''"]
  from r h1 have c1: "pattern1_sub (str ''package cmd'') = Inr (str ''package cmd'')" by blast
  from r h2 have c2: "pattern2_sub (str ''package cmd'') = Inr (str ''package cmd'')" by blast
  from r h3 h4 h5 have c3: "pattern3_sub (str ''package cmd'') = Inr (str ''package cmd'')" by blast
  show ?thesis by (intro conjI h1 h2 h3 h4 h5 c1 c2 c3)
qed

section \<open>The boilerplate-collapse rule\<close>

lemma second_pass:
  assumes "\<forall>c\<in>set indent. is_space c"
  shows "search pattern1 False (indent @ str ''WithIsolatedDirectory(t, func(workingDir string) {'') = None"
    and "rewrite (indent @ str ''WithIsolatedDirectory(t, func(workingDir string) {'') =
      Inr (indent @ str ''WithIsolatedDirectory(t, func(workingDir string) {'', False)"
proof -
  let ?W = "str ''WithIsolatedDirectory(t, func(workingDir string) {''"
  have m: "match_at pattern1 False (w @ ?W) = None" if "\<forall>c\<in>set w. is_space c" for w
    using that
    by (cases w) (simp_all add: match_at_consuming[OF consuming_pattern1] matches_pattern1
        eval_tail dropWhile_space_run)
  have "search pattern1 False (w @ ?W) = None" if "\<forall>c\<in>set w. is_space c" for w
    using that
  proof (induction w)
    case Nil
    show ?case by (simp add: eval_search str_def)
  next
    case (Cons c w)
    then show ?case using m[of "c # w"] by simp
  qed
  from this[OF assms] show s: "search pattern1 False (indent @ ?W) = None" .
  have "sub_loop pattern1 replacement1 False (indent @ ?W) = indent @ ?W"
    using s by (rule sub_loop_no_match)
  then show "rewrite (indent @ ?W) = Inr (indent @ ?W, False)"
    using assms
    by (simp add: rewrite_eq eval_lits str_def skip_space_run_lits is_space_numeral)
qed

lemma literal_rules_keep_collapsed:
  assumes "\<forall>c\<in>set indent. is_space c"
  shows "sub_loop pattern3c replacement3c False
     (sub_loop pattern3b replacement3b False (sub_loop pattern3a replacement3a False
     (sub_loop pattern2 replacement2 False
       (indent @ str ''WithIsolatedDirectory(t, func(workingDir string) {'')))) =
     indent @ str ''WithIsolatedDirectory(t, func(workingDir string) {''"
  using assms
  by (simp add: eval_lits str_def skip_space_run_lits is_space_numeral)

lemma snippet_not_collapsed:
  "snippet indent lead given \<noteq> indent @ str ''WithIsolatedDirectory(t, func(workingDir string) {''"
  by (cases lead; cases given) (simp_all add: snippet_def str_def)

lemma matches_groups_kept:
  "num_groups r = 0 \<Longrightarrow> (g', s') \<in> set (matches r (g, s)) \<Longrightarrow> g' = g"
proof (induction r arbitrary: g s g' s')
  case (Atom cs)
  then show ?case by (cases s) (auto simp: matches.simps split: if_splits)
next
  case (Seq a b)
  then obtain g1 s1 where "(g1, s1) \<in> set (matches a (g, s))" "(g', s') \<in> set (matches b (g1, s1))"
    by (auto simp: matches.simps)
  with Seq show ?case by (metis add_is_0 num_groups.simps(1))
next
  case (Plus cs)
  then show ?case by (cases s) (auto simp: matches.simps split: if_splits)
qed (auto simp: matches.simps)

lemma num_groups_idiom_tail: "num_groups idiom_tail = 0"
  by (simp add: idiom_tail_def seqs_def lits_def comp_def str_def)

lemma match_pattern1_starts_with_space:
  assumes "match_at pattern1 adv s = Some (g, s')"
  shows "s \<noteq> [] \<and> is_space (hd s) \<and> g = [(1, takeWhile is_space s)]"
proof -
  from assms have m: "(g, s') \<in> set (matches pattern1 ([], s))"
    by (auto simp: match_at_def dest: find_SomeD)
  then obtain c t where s: "s = c # t" and c: "is_space c"
    and m': "(g, s') \<in> set (matches idiom_tail ([(1, c # takeWhile is_space t)], dropWhile is_space t))"
    by (auto simp: matches_pattern1 split: list.splits if_splits)
  from matches_groups_kept[OF num_groups_idiom_tail m'] s c show ?thesis by simp
qed

text \<open>
  Claim C10: pattern 1 begins with \<^verbatim>\<open>(\s+)\<close>: every match starts with a white space
  character, and group 1 captures the run of white space the match starts with. So the
  four statements at the very start of a text, with no white space before them, are not
  matched: whatever white space separates them and whatever follows, rule 1 leaves them
  as they are and goes on with the rest of the text.
\<close>

theorem idiom_at_start_not_matched:
  "(\<forall>adv s g s'. match_at pattern1 adv s = Some (g, s') \<longrightarrow>
      s \<noteq> [] \<and> is_space (hd s) \<and> g = [(1, takeWhile is_space s)])
   \<and> (\<forall>w1 w2 w3 rest.
        (\<forall>c\<in>set w1. is_space c) \<and> (\<forall>c\<in>set w2. is_space c) \<and> (\<forall>c\<in>set w3. is_space c) \<longrightarrow>
        pattern1_sub (str ''origDir, _ := os.Getwd()'' @ w1 @ str ''defer os.Chdir(origDir)'' @ w2
           @ str ''tempDir := t.TempDir()'' @ w3 @ str ''os.Chdir(tempDir)'' @ rest) =
         map_sum id ((@) (str ''origDir, _ := os.Getwd()'' @ w1 @ str ''defer os.Chdir(origDir)'' @ w2
           @ str ''tempDir := t.TempDir()'' @ w3 @ str ''os.Chdir(tempDir)'')) (pattern1_sub rest))"
proof (rule conjI)
  show "\<forall>adv s g s'. match_at pattern1 adv s = Some (g, s') \<longrightarrow>
      s \<noteq> [] \<and> is_space (hd s) \<and> g = [(1, takeWhile is_space s)]"
    using match_pattern1_starts_with_space by blast
next
  show "\<forall>w1 w2 w3 rest.
        (\<forall>c\<in>set w1. is_space c) \<and> (\<forall>c\<in>set w2. is_space c) \<and> (\<forall>c\<in>set w3. is_space c) \<longrightarrow>
        pattern1_sub (str ''origDir, _ := os.Getwd()'' @ w1 @ str ''defer os.Chdir(origDir)'' @ w2
           @ str ''tempDir := t.TempDir()'' @ w3 @ str ''os.Chdir(tempDir)'' @ rest) =
         map_sum id ((@) (str ''origDir, _ := os.Getwd()'' @ w1 @ str ''defer os.Chdir(origDir)'' @ w2
           @ str ''tempDir := t.TempDir()'' @ w3 @ str ''os.Chdir(tempDir)'')) (pattern1_sub rest)"
  proof (intro allI impI, elim conjE)
    fix w1 w2 w3 rest :: pystr
    assume "\<forall>c\<in>set w1. is_space c" "\<forall>c\<in>set w2. is_space c" "\<forall>c\<in>set w3. is_space c"
    then show "pattern1_sub (str ''origDir, _ := os.Getwd()'' @ w1 @ str ''defer os.Chdir(origDir)'' @ w2
           @ str ''tempDir := t.TempDir()'' @ w3 @ str ''os.Chdir(tempDir)'' @ rest) =
         map_sum id ((@) (str ''origDir, _ := os.Getwd()'' @ w1 @ str ''defer os.Chdir(origDir)'' @ w2
           @ str ''tempDir := t.TempDir()'' @ w3 @ str ''os.Chdir(tempDir)'')) (pattern1_sub rest)"
      by (simp add: pattern1_sub_eq eval_sym skip_space_run)
  qed
qed

text \<open>The theorem of claim C10 at the four statements on four lines, and nothing else.\<close>

theorem idiom_at_start_not_matched_witness:
  "is_space 10
   \<and> pattern1_sub (str ''origDir, _ := os.Getwd()'' @ [10] @ str ''defer os.Chdir(origDir)'' @ [10]
           @ str ''tempDir := t.TempDir()'' @ [10] @ str ''os.Chdir(tempDir)'' @ []) =
       Inr (str ''origDir, _ := os.Getwd()'' @ [10] @ str ''defer os.Chdir(origDir)'' @ [10]
           @ str ''tempDir := t.TempDir()'' @ [10] @ str ''os.Chdir(tempDir)'' @ [])"
proof -
  have sp: "\<forall>c\<in>set [10]. is_space c" by (simp add: is_space_def)
  have e: "pattern1_sub [] = Inr []"
    by (simp add: pattern1_sub_eq sub_loop_Nil[OF consuming_pattern1])
  from idiom_at_start_not_matched[THEN conjunct2, rule_format, of "[10]" "[10]" "[10]" "[]",
      OF conjI[OF sp conjI[OF sp sp]]] e sp
  show ?thesis by simp
qed




text \<open>
  Claim C6: the chain turns an indented snippet into the collapsed line, with the changed
  flag true; in the collapsed line pattern 1 matches nowhere, and a second pass of the
  chain returns the collapsed line as it is, with the changed flag false.
\<close>

theorem second_pass_leaves_collapsed:
  assumes "indent \<noteq> []" and "\<forall>c\<in>set indent. is_space c"
    and "\<forall>u. given = Some u \<longrightarrow> 10 \<notin> set u"
  shows "rewrite (snippet indent lead given) =
           Inr (indent @ str ''WithIsolatedDirectory(t, func(workingDir string) {'', True)
         \<and> search pattern1 False
             (indent @ str ''WithIsolatedDirectory(t, func(workingDir string) {'') = None
         \<and> rewrite (indent @ str ''WithIsolatedDirectory(t, func(workingDir string) {'') =
           Inr (indent @ str ''WithIsolatedDirectory(t, func(workingDir string) {'', False)"
proof -
  from assms(1) obtain c w where i: "indent = c # w" by (cases indent) auto
  with assms(2) have sp: "is_space c" "\<forall>c\<in>set w. is_space c" by simp_all
  have "sub_loop pattern1 replacement1 False (snippet indent lead given) =
          indent @ str ''WithIsolatedDirectory(t, func(workingDir string) {''"
    unfolding i using collapse_snippet[OF sp assms(3)] by simp
  then have "rewrite (snippet indent lead given) =
           Inr (indent @ str ''WithIsolatedDirectory(t, func(workingDir string) {'', True)"
    using literal_rules_keep_collapsed[OF assms(2)] snippet_not_collapsed[of indent lead given]
    by (simp add: rewrite_eq Let_def)
  with second_pass[OF assms(2)] show ?thesis by simp
qed

text \<open>The theorem of claim C6 at a snippet indented by two spaces, without comments.\<close>

theorem second_pass_leaves_collapsed_witness:
  "[32, 32] \<noteq> ([] :: pystr) \<and> is_space 32
   \<and> rewrite (snippet [32, 32] False None) =
           Inr ([32, 32] @ str ''WithIsolatedDirectory(t, func(workingDir string) {'', True)
   \<and> search pattern1 False
             ([32, 32] @ str ''WithIsolatedDirectory(t, func(workingDir string) {'') = None
   \<and> rewrite ([32, 32] @ str ''WithIsolatedDirectory(t, func(workingDir string) {'') =
           Inr ([32, 32] @ str ''WithIsolatedDirectory(t, func(workingDir string) {'', False)"
proof -
  have h1: "[32, 32] \<noteq> ([] :: pystr)" by simp
  have h2: "\<forall>c\<in>set [32, 32]. is_space c" by (simp add: is_space_def)
  have h3: "\<forall>u. None = Some u \<longrightarrow> 10 \<notin> set u" by simp
  have h4: "is_space 32" by (simp add: is_space_def)
  from second_pass_leaves_collapsed[OF h1 h2 h3, of False] h4 show ?thesis by blast
qed

section \<open>Backups and the exit status\<close>




lemma can_write_update [simp]:
  "can_write (w\<lparr>trace := t\<rparr>) p = can_write w p"
  "can_write (w\<lparr>files := f\<rparr>) p = can_write w p"
  by (simp_all add: can_write_def)


























end
